theory Spec2Isabelle
  imports Main
begin

section \<open>Python list primitives used by the buffer\<close>

text \<open>
  The buffer of \<^verbatim>\<open>_buffer.py\<close> is a Python list of lists of one-character strings.
  Indexing, slicing and \<^verbatim>\<open>list.insert\<close> take machine-independent (unbounded) integers,
  and a negative index counts from the end of the list.  These three helpers write that
  behaviour out; the only exception they can produce is \<^verbatim>\<open>IndexError\<close>.
  \<^verbatim>\<open>ValueError\<close> is what \<^verbatim>\<open>max\<close> raises on an empty sequence.
\<close>

datatype error = IndexError | ValueError

text \<open>\<^verbatim>\<open>xs[i]\<close>: the position read or deleted, or \<^verbatim>\<open>IndexError\<close>.\<close>

definition py_index :: "'a list \<Rightarrow> int \<Rightarrow> error + nat" where
  "py_index xs i =
     (if i < 0
      then (if - int (length xs) \<le> i then Inr (nat (int (length xs) + i)) else Inl IndexError)
      else (if i < int (length xs) then Inr (nat i) else Inl IndexError))"

text \<open>
  The start of the slice \<^verbatim>\<open>xs[i:]\<close>, which is also the place where
  \<^verbatim>\<open>xs.insert(i, v)\<close> puts \<open>v\<close>: a negative \<open>i\<close> counts from the end and
  is then raised to 0, an \<open>i\<close> beyond the end is lowered to the length.  Neither
  operation raises.
\<close>

definition py_clamp :: "'a list \<Rightarrow> int \<Rightarrow> nat" where
  "py_clamp xs i =
     (let n = int (length xs)
      in if i < 0 then (if n + i < 0 then 0 else nat (n + i))
         else (if i > n then nat n else nat i))"

definition list_insert :: "'a list \<Rightarrow> int \<Rightarrow> 'a \<Rightarrow> 'a list" where
  "list_insert xs i v = (let k = py_clamp xs i in take k xs @ v # drop k xs)"

section \<open>Buffer\<close>

text \<open>
  \<^verbatim>\<open>class Buffer\<close>: its only attribute is \<^verbatim>\<open>_lines\<close> (an identifier cannot start
  with an underscore here, so the field is \<open>buf_lines\<close>).  A line is a list of
  characters; \<^verbatim>\<open>"".join(line)\<close> of the source is therefore the line itself.
\<close>

record buffer =
  buf_lines :: "string list"

text \<open>\<^verbatim>\<open>Buffer.__init__\<close>: \<^verbatim>\<open>self._lines = [[]]\<close>.\<close>

definition Buffer_init :: buffer where
  "Buffer_init = \<lparr>buf_lines = [[]]\<rparr>"

definition max_y :: "buffer \<Rightarrow> int" where
  "max_y b = int (length (buf_lines b))"

text \<open>\<^verbatim>\<open>max(len(line) for line in self._lines)\<close> raises \<^verbatim>\<open>ValueError\<close> when there is no line.\<close>

definition max_x :: "buffer \<Rightarrow> error + int" where
  "max_x b =
     (case map length (buf_lines b) of
        [] \<Rightarrow> Inl ValueError
      | n # ns \<Rightarrow> Inr (int (fold max ns n)))"

text \<open>
  \<^verbatim>\<open>try: return len(self._lines[y])  except IndexError: return None\<close>.
\<close>

definition get_line_length :: "buffer \<Rightarrow> int \<Rightarrow> int option" where
  "get_line_length b y =
     (case py_index (buf_lines b) y of
        Inl e \<Rightarrow> None
      | Inr j \<Rightarrow> Some (int (length (buf_lines b ! j))))"

text \<open>\<^verbatim>\<open>sep.join(lines)\<close> for strings.\<close>

fun str_join :: "string \<Rightarrow> string list \<Rightarrow> string" where
  "str_join sep [] = []"
| "str_join sep [l] = l"
| "str_join sep (l # m # ls) = l @ sep @ str_join sep (m # ls)"

text \<open>
  \<^verbatim>\<open>Buffer.write\<close> (\<open>write\<close> is a reserved word here).  The platform constant
  \<^verbatim>\<open>os.linesep\<close> is not part of the repository; it is the parameter \<open>linesep\<close> of
  every function that reads it.
\<close>

definition buffer_write :: "string \<Rightarrow> buffer \<Rightarrow> string" where
  "buffer_write linesep b = str_join linesep (map (\<lambda>line. line) (buf_lines b))"

text \<open>
  \<^verbatim>\<open>Buffer.insert_linebreak\<close>.  A position is the pair \<open>(x, y)\<close> (textual's
  \<^verbatim>\<open>Offset\<close>).  Only \<^verbatim>\<open>self._lines[y]\<close> can raise, and it does so before anything is
  changed.  The new line is inserted at \<open>y + 1\<close> of the index as given.
\<close>

definition insert_linebreak :: "buffer \<Rightarrow> int \<times> int \<Rightarrow> error + buffer" where
  "insert_linebreak b position =
     (case position of (x, y) \<Rightarrow>
        (case py_index (buf_lines b) y of
           Inl e \<Rightarrow> Inl e
         | Inr j \<Rightarrow>
             (let l = buf_lines b ! j;
                  k = py_clamp l x;
                  line = drop k l;
                  ls = (buf_lines b)[j := take k l]
              in Inr (b\<lparr>buf_lines := list_insert ls (y + 1) line\<rparr>))))"

text \<open>The loop \<^verbatim>\<open>for char in text: self._lines[y].insert(x, char)\<close>.\<close>

fun insert_chars :: "buffer \<Rightarrow> int \<Rightarrow> int \<Rightarrow> string \<Rightarrow> error + buffer" where
  "insert_chars b x y [] = Inr b"
| "insert_chars b x y (char # rest) =
     (case py_index (buf_lines b) y of
        Inl e \<Rightarrow> Inl e
      | Inr j \<Rightarrow>
          insert_chars
            (b\<lparr>buf_lines := (buf_lines b)[j := list_insert (buf_lines b ! j) x char]\<rparr>)
            x y rest)"

definition insert_text :: "string \<Rightarrow> buffer \<Rightarrow> int \<times> int \<Rightarrow> string \<Rightarrow> error + buffer" where
  "insert_text linesep b position text =
     (case position of (x, y) \<Rightarrow>
        if text = linesep then insert_linebreak b position
        else insert_chars b x y text)"

text \<open>\<^verbatim>\<open>del self._lines[y][x]\<close>: both indexings can raise.\<close>

definition delete_text :: "buffer \<Rightarrow> int \<times> int \<Rightarrow> error + buffer" where
  "delete_text b position =
     (case position of (x, y) \<Rightarrow>
        (case py_index (buf_lines b) y of
           Inl e \<Rightarrow> Inl e
         | Inr j \<Rightarrow>
             (let l = buf_lines b ! j
              in case py_index l x of
                   Inl e \<Rightarrow> Inl e
                 | Inr k \<Rightarrow> Inr (b\<lparr>buf_lines := (buf_lines b)[j := take k l @ drop (Suc k) l]\<rparr>))))"

section \<open>Cell/segment index translation\<close>

text \<open>
  \<^verbatim>\<open>_get_segment_index_from_cell_index\<close>.  \<^verbatim>\<open>Segment\<close> belongs to the rich library;
  the only thing read from a segment is its \<^verbatim>\<open>cell_length\<close>, here the parameter
  \<open>cell_length\<close>.  The loop carries the running \<open>length\<close> and the index that
  \<^verbatim>\<open>enumerate\<close> counts; \<^verbatim>\<open>cell_index in range(a, b)\<close> is \<open>a \<le> cell_index < b\<close>.
\<close>

fun segment_loop :: "('seg \<Rightarrow> int) \<Rightarrow> int \<Rightarrow> int \<Rightarrow> nat \<Rightarrow> 'seg list \<Rightarrow> nat option" where
  "segment_loop cell_length cell_index len segment_index [] = None"
| "segment_loop cell_length cell_index len segment_index (segment # rest) =
     (let cl = cell_length segment;
          len' = len + cl
      in if len' - cl \<le> cell_index \<and> cell_index < len' then Some segment_index
         else segment_loop cell_length cell_index len' (Suc segment_index) rest)"

definition get_segment_index_from_cell_index ::
    "('seg \<Rightarrow> int) \<Rightarrow> int \<Rightarrow> 'seg list \<Rightarrow> nat option" where
  "get_segment_index_from_cell_index cell_length cell_index line =
     segment_loop cell_length cell_index 0 0 line"

section \<open>TextArea: the cursor and the compound actions\<close>

text \<open>\<^verbatim>\<open>_is_negative\<close>.\<close>

definition is_negative :: "int \<Rightarrow> bool" where
  "is_negative number = (number < 0)"

text \<open>
  The state of \<^verbatim>\<open>class TextArea\<close> that its own methods read and write: the buffer
  (\<^verbatim>\<open>_buffer\<close>), the rendered rows (\<^verbatim>\<open>lines\<close>), \<^verbatim>\<open>virtual_size\<close> and the two
  cursor coordinates.  \<^verbatim>\<open>cursor_offset\<close> is computed from the coordinates
  (\<^verbatim>\<open>compute_cursor_offset\<close>).  Rows come from the rich library and are of an
  arbitrary type \<open>'row\<close>.
\<close>

record 'row textarea =
  ta_buffer :: buffer
  lines :: "'row list"
  virtual_size :: "int \<times> int"
  cursor_x :: int
  cursor_y :: int

definition compute_cursor_offset :: "'row textarea \<Rightarrow> int \<times> int" where
  "compute_cursor_offset t = (cursor_x t, cursor_y t)"

definition validate_cursor_x :: "'row textarea \<Rightarrow> int \<Rightarrow> int" where
  "validate_cursor_x t cx =
     (if is_negative 0 then 0
      else (case get_line_length (ta_buffer t) (cursor_y t) of
              None \<Rightarrow> cx
            | Some line_length \<Rightarrow> if cx > line_length then line_length else cx))"

definition validate_cursor_y :: "'row textarea \<Rightarrow> int \<Rightarrow> int" where
  "validate_cursor_y t cy =
     (if is_negative cy then 0
      else (let last_line = max_y (ta_buffer t) - 1
            in if cy > last_line then last_line else cy))"

text \<open>
  \<^verbatim>\<open>cursor_x\<close> and \<^verbatim>\<open>cursor_y\<close> are reactive attributes of the textual framework:
  an assignment \<^verbatim>\<open>self.cursor_x = v\<close> stores \<^verbatim>\<open>self.validate_cursor_x(v)\<close>
  (the cursor is reclamped on every change of its own coordinate).  The watcher of
  \<^verbatim>\<open>cursor_offset\<close> only asks the host for a repaint and changes none of these
  fields.
\<close>

definition set_cursor_x :: "'row textarea \<Rightarrow> int \<Rightarrow> 'row textarea" where
  "set_cursor_x t v = t\<lparr>cursor_x := validate_cursor_x t v\<rparr>"

definition set_cursor_y :: "'row textarea \<Rightarrow> int \<Rightarrow> 'row textarea" where
  "set_cursor_y t v = t\<lparr>cursor_y := validate_cursor_y t v\<rparr>"

definition action_cursor_left :: "'row textarea \<Rightarrow> 'row textarea" where
  "action_cursor_left t = set_cursor_x t (cursor_x t - 1)"

definition action_cursor_right :: "'row textarea \<Rightarrow> 'row textarea" where
  "action_cursor_right t = set_cursor_x t (cursor_x t + 1)"

definition action_cursor_up :: "'row textarea \<Rightarrow> 'row textarea" where
  "action_cursor_up t = set_cursor_y t (cursor_y t - 1)"

definition action_cursor_down :: "'row textarea \<Rightarrow> 'row textarea" where
  "action_cursor_down t = set_cursor_y t (cursor_y t + 1)"

text \<open>
  \<^verbatim>\<open>_make_lines\<close> hands the serialized buffer and the bounds
  \<open>(max_x, max_y)\<close> to the highlighting engine, the parameter \<open>render\<close>.
  \<^verbatim>\<open>_update_lines\<close> stores the rows and the virtual size.
\<close>

definition make_lines ::
    "(string \<Rightarrow> int \<Rightarrow> int \<Rightarrow> 'row list) \<Rightarrow> string \<Rightarrow> 'row textarea \<Rightarrow> error + 'row list" where
  "make_lines render linesep t =
     (let text = buffer_write linesep (ta_buffer t)
      in case max_x (ta_buffer t) of
           Inl e \<Rightarrow> Inl e
         | Inr mx \<Rightarrow> Inr (render text mx (max_y (ta_buffer t))))"

definition update_lines ::
    "(string \<Rightarrow> int \<Rightarrow> int \<Rightarrow> 'row list) \<Rightarrow> string \<Rightarrow> 'row textarea \<Rightarrow> error + 'row textarea" where
  "update_lines render linesep t =
     (case make_lines render linesep t of
        Inl e \<Rightarrow> Inl e
      | Inr rows \<Rightarrow>
          (case max_x (ta_buffer t) of
             Inl e \<Rightarrow> Inl e
           | Inr mx \<Rightarrow> Inr (t\<lparr>lines := rows, virtual_size := (mx, max_y (ta_buffer t))\<rparr>)))"

definition action_insert_linebreak_at_cursor ::
    "(string \<Rightarrow> int \<Rightarrow> int \<Rightarrow> 'row list) \<Rightarrow> string \<Rightarrow> 'row textarea \<Rightarrow> error + 'row textarea" where
  "action_insert_linebreak_at_cursor render linesep t =
     (case insert_linebreak (ta_buffer t) (compute_cursor_offset t) of
        Inl e \<Rightarrow> Inl e
      | Inr b \<Rightarrow>
          (let t1 = t\<lparr>ta_buffer := b\<rparr>;
               t2 = action_cursor_down t1;
               t3 = set_cursor_x t2 0
           in update_lines render linesep t3))"

definition insert_text_at_cursor ::
    "(string \<Rightarrow> int \<Rightarrow> int \<Rightarrow> 'row list) \<Rightarrow> string \<Rightarrow> 'row textarea \<Rightarrow> string
      \<Rightarrow> error + 'row textarea" where
  "insert_text_at_cursor render linesep t text =
     (case insert_text linesep (ta_buffer t) (compute_cursor_offset t) text of
        Inl e \<Rightarrow> Inl e
      | Inr b \<Rightarrow>
          (case update_lines render linesep (t\<lparr>ta_buffer := b\<rparr>) of
             Inl e \<Rightarrow> Inl e
           | Inr t1 \<Rightarrow> Inr (set_cursor_x t1 (cursor_x t1 + int (length text)))))"

text \<open>\<^verbatim>\<open>TextArea.__init__\<close>: a fresh buffer, no rows yet, the cursor at the origin.\<close>

definition TextArea_init :: "'row textarea" where
  "TextArea_init =
     \<lparr>ta_buffer = Buffer_init, lines = [], virtual_size = (0, 0), cursor_x = 0, cursor_y = 0\<rparr>"

section \<open>Operation sequences and the notions the properties are stated with\<close>

text \<open>
  The three mutating operations of the buffer as values, so that a sequence of calls is a
  list.  A run stops at the first exception, as the Python program would.
\<close>

datatype buffer_op =
    InsertText "int \<times> int" string
  | DeleteText "int \<times> int"
  | InsertLinebreak "int \<times> int"

fun apply_op :: "string \<Rightarrow> buffer \<Rightarrow> buffer_op \<Rightarrow> error + buffer" where
  "apply_op linesep b (InsertText position text) = insert_text linesep b position text"
| "apply_op linesep b (DeleteText position) = delete_text b position"
| "apply_op linesep b (InsertLinebreak position) = insert_linebreak b position"

fun apply_ops :: "string \<Rightarrow> buffer \<Rightarrow> buffer_op list \<Rightarrow> error + buffer" where
  "apply_ops linesep b [] = Inr b"
| "apply_ops linesep b (operation # rest) =
     (case apply_op linesep b operation of
        Inl e \<Rightarrow> Inl e
      | Inr b' \<Rightarrow> apply_ops linesep b' rest)"

text \<open>
  In-range positions, as the data model of the specification has them: the row selects an
  existing line, the column is in \<open>[0, line_length]\<close> for an insertion and a split and in
  \<open>[0, line_length)\<close> for a deletion.
\<close>

definition insert_in_range :: "buffer \<Rightarrow> int \<times> int \<Rightarrow> bool" where
  "insert_in_range b position =
     (case position of (x, y) \<Rightarrow>
        0 \<le> y \<and> y < max_y b \<and> 0 \<le> x \<and> x \<le> int (length (buf_lines b ! nat y)))"

definition delete_in_range :: "buffer \<Rightarrow> int \<times> int \<Rightarrow> bool" where
  "delete_in_range b position =
     (case position of (x, y) \<Rightarrow>
        0 \<le> y \<and> y < max_y b \<and> 0 \<le> x \<and> x < int (length (buf_lines b ! nat y)))"

fun op_in_range :: "buffer \<Rightarrow> buffer_op \<Rightarrow> bool" where
  "op_in_range b (InsertText position text) = insert_in_range b position"
| "op_in_range b (DeleteText position) = delete_in_range b position"
| "op_in_range b (InsertLinebreak position) = insert_in_range b position"

text \<open>
  Every operation of the sequence is in range for the buffer it is applied to.  After an
  exception there is no further buffer and nothing more is asked; that an in-range
  operation never raises is proved below, not assumed here.
\<close>

fun ops_in_range :: "string \<Rightarrow> buffer \<Rightarrow> buffer_op list \<Rightarrow> bool" where
  "ops_in_range linesep b [] = True"
| "ops_in_range linesep b (operation # rest) =
     (op_in_range b operation \<and>
      (case apply_op linesep b operation of
         Inl e \<Rightarrow> True
       | Inr b' \<Rightarrow> ops_in_range linesep b' rest))"

text \<open>Deleting a span: \<open>n\<close> calls of \<^verbatim>\<open>delete_text\<close> at the same position.\<close>

fun delete_span :: "buffer \<Rightarrow> int \<times> int \<Rightarrow> nat \<Rightarrow> error + buffer" where
  "delete_span b position 0 = Inr b"
| "delete_span b position (Suc n) =
     (case delete_text b position of
        Inl e \<Rightarrow> Inl e
      | Inr b' \<Rightarrow> delete_span b' position n)"

text \<open>
  The round-trip property speaks of the text spliced into the serialization at the
  character offset equivalent to a position: every earlier line counts with its length
  and one separator.
\<close>

definition spec_char_offset :: "string \<Rightarrow> buffer \<Rightarrow> int \<times> int \<Rightarrow> nat" where
  "spec_char_offset linesep b position =
     (case position of (x, y) \<Rightarrow>
        sum_list (map (\<lambda>l. length l + length linesep) (take (nat y) (buf_lines b))) + nat x)"

definition spec_splice :: "string \<Rightarrow> nat \<Rightarrow> string \<Rightarrow> string" where
  "spec_splice s offset text = take offset s @ text @ drop offset s"

text \<open>
  The number of pieces \<^verbatim>\<open>s.split(sep)\<close> gives for a non-empty separator: one more
  than the number of occurrences of \<open>sep\<close> found from left to right without overlap.
\<close>

function count_sep :: "string \<Rightarrow> string \<Rightarrow> nat" where
  "count_sep sep [] = 0"
| "count_sep sep (c # cs) =
     (if sep \<noteq> [] \<and> take (length sep) (c # cs) = sep
      then Suc (count_sep sep (drop (length sep) (c # cs)))
      else count_sep sep cs)"
  by pat_completeness auto
termination
  by (relation "measure (\<lambda>(sep, s). length s)") auto

definition split_count :: "string \<Rightarrow> string \<Rightarrow> nat" where
  "split_count sep s = Suc (count_sep sep s)"

text \<open>Does \<open>sep\<close> occur in \<open>s\<close> as a contiguous substring?\<close>

fun contains_sep :: "string \<Rightarrow> string \<Rightarrow> bool" where
  "contains_sep sep [] = (sep = [])"
| "contains_sep sep (c # cs) = (take (length sep) (c # cs) = sep \<or> contains_sep sep cs)"

text \<open>
  The cells in front of run \<open>i\<close> of a row: the sum of the widths of the runs before it.
  Run \<open>i\<close> covers the cells from \<open>cells_before i\<close> up to, not including,
  \<open>cells_before (Suc i)\<close>.
\<close>

definition cells_before :: "('seg \<Rightarrow> int) \<Rightarrow> 'seg list \<Rightarrow> nat \<Rightarrow> int" where
  "cells_before cell_length line i = sum_list (map cell_length (take i line))"

section \<open>Facts about the list primitives and the buffer operations\<close>

lemma py_index_in_range: "0 \<le> i \<Longrightarrow> i < int (length xs) \<Longrightarrow> py_index xs i = Inr (nat i)"
  by (simp add: py_index_def)

lemma py_clamp_in_range: "0 \<le> i \<Longrightarrow> i \<le> int (length xs) \<Longrightarrow> py_clamp xs i = nat i"
  by (simp add: py_clamp_def)

lemma py_index_bound: "py_index xs i = Inr j \<Longrightarrow> j < length xs"
  by (auto simp: py_index_def Let_def split: if_splits)

lemma py_clamp_bound: "py_clamp xs i \<le> length xs"
  by (auto simp: py_clamp_def Let_def)

lemma length_list_insert: "length (list_insert xs i v) = Suc (length xs)"
  by (simp add: list_insert_def Let_def)

lemma list_insert_in_range:
  "0 \<le> i \<Longrightarrow> i \<le> int (length xs) \<Longrightarrow> list_insert xs i v = take (nat i) xs @ v # drop (nat i) xs"
  by (simp add: list_insert_def py_clamp_in_range Let_def)

lemma insert_chars_length:
  "insert_chars b x y str = Inr b' \<Longrightarrow> length (buf_lines b') = length (buf_lines b)"
  by (induction str arbitrary: b) (auto split: sum.splits)

lemma insert_linebreak_length:
  "insert_linebreak b position = Inr b' \<Longrightarrow> length (buf_lines b') = Suc (length (buf_lines b))"
  by (auto simp: insert_linebreak_def Let_def length_list_insert split: sum.splits prod.splits)

lemma delete_text_length:
  "delete_text b position = Inr b' \<Longrightarrow> length (buf_lines b') = length (buf_lines b)"
  by (auto simp: delete_text_def Let_def split: sum.splits prod.splits)

lemma insert_text_length:
  "insert_text linesep b position text = Inr b' \<Longrightarrow>
   length (buf_lines b') = (if text = linesep then Suc (length (buf_lines b)) else length (buf_lines b))"
  by (auto simp: insert_text_def insert_linebreak_length insert_chars_length split: prod.splits if_splits)

lemma apply_op_length:
  "apply_op linesep b operation = Inr b' \<Longrightarrow> length (buf_lines b) \<le> length (buf_lines b')"
  by (cases operation) (auto dest: insert_text_length insert_linebreak_length delete_text_length split: if_splits)

lemma apply_ops_length:
  "apply_ops linesep b ops = Inr b' \<Longrightarrow> length (buf_lines b) \<le> length (buf_lines b')"
proof (induction ops arbitrary: b)
  case Nil
  then show ?case by simp
next
  case (Cons operation rest)
  then obtain b1 where s: "apply_op linesep b operation = Inr b1" and r: "apply_ops linesep b1 rest = Inr b'"
    by (auto split: sum.splits)
  from apply_op_length [OF s] Cons.IH [OF r] show ?case by simp
qed

lemma insert_chars_in_range:
  "0 \<le> y \<Longrightarrow> y < int (length (buf_lines b)) \<Longrightarrow> 0 \<le> x \<Longrightarrow> x \<le> int (length (buf_lines b ! nat y)) \<Longrightarrow>
   insert_chars b x y str =
     Inr (b\<lparr>buf_lines := (buf_lines b)[nat y :=
            take (nat x) (buf_lines b ! nat y) @ rev str @ drop (nat x) (buf_lines b ! nat y)]\<rparr>)"
proof (induction str arbitrary: b)
  case Nil
  then show ?case by simp
next
  case (Cons c cs)
  let ?l = "buf_lines b ! nat y"
  let ?b1 = "b\<lparr>buf_lines := (buf_lines b)[nat y := take (nat x) ?l @ c # drop (nat x) ?l]\<rparr>"
  have step: "insert_chars b x y (c # cs) = insert_chars ?b1 x y cs"
    using Cons.prems by (simp add: py_index_in_range list_insert_in_range)
  have ny: "nat y < length (buf_lines b)" using Cons.prems by simp
  have nx: "nat x \<le> length ?l" using Cons.prems by simp
  have "insert_chars ?b1 x y cs =
     Inr (?b1\<lparr>buf_lines := (buf_lines ?b1)[nat y :=
            take (nat x) (buf_lines ?b1 ! nat y) @ rev cs @ drop (nat x) (buf_lines ?b1 ! nat y)]\<rparr>)"
    using Cons.prems ny nx by (intro Cons.IH) auto
  with step ny nx show ?case by simp
qed


lemma delete_text_in_range:
  "0 \<le> y \<Longrightarrow> y < int (length (buf_lines b)) \<Longrightarrow> 0 \<le> x \<Longrightarrow> x < int (length (buf_lines b ! nat y)) \<Longrightarrow>
   delete_text b (x, y) =
     Inr (b\<lparr>buf_lines := (buf_lines b)[nat y :=
            take (nat x) (buf_lines b ! nat y) @ drop (Suc (nat x)) (buf_lines b ! nat y)]\<rparr>)"
  by (simp add: delete_text_def py_index_in_range Let_def)

lemma insert_linebreak_in_range:
  "0 \<le> y \<Longrightarrow> y < int (length (buf_lines b)) \<Longrightarrow> 0 \<le> x \<Longrightarrow> x \<le> int (length (buf_lines b ! nat y)) \<Longrightarrow>
   insert_linebreak b (x, y) =
     Inr (b\<lparr>buf_lines :=
            take (nat y) (buf_lines b) @ take (nat x) (buf_lines b ! nat y)
              # drop (nat x) (buf_lines b ! nat y) # drop (Suc (nat y)) (buf_lines b)\<rparr>)"
proof -
  assume a: "0 \<le> y" "y < int (length (buf_lines b))" "0 \<le> x" "x \<le> int (length (buf_lines b ! nat y))"
  let ?ls = "(buf_lines b)[nat y := take (nat x) (buf_lines b ! nat y)]"
  have 1: "py_index (buf_lines b) y = Inr (nat y)" using a by (simp add: py_index_in_range)
  have 2: "py_clamp (buf_lines b ! nat y) x = nat x" using a by (simp add: py_clamp_in_range)
  have 3: "list_insert ?ls (y + 1) l = take (nat (y + 1)) ?ls @ l # drop (nat (y + 1)) ?ls" for l
    using a by (intro list_insert_in_range) auto
  have 4: "nat (y + 1) = Suc (nat y)" using a by simp
  have 5: "take (Suc (nat y)) ?ls = take (nat y) (buf_lines b) @ [take (nat x) (buf_lines b ! nat y)]"
    using a by (simp add: take_Suc_conv_app_nth)
  show ?thesis
    by (simp add: insert_linebreak_def 1 2 3 4 5 Let_def)
qed

section \<open>The cell/segment index translator\<close>

lemma cells_before_0: "cells_before cl line 0 = 0"
  by (simp add: cells_before_def)

lemma cells_before_Cons_Suc: "cells_before cl (s # line) (Suc i) = cl s + cells_before cl line i"
  by (simp add: cells_before_def)

lemma cells_before_all: "length line \<le> i \<Longrightarrow> cells_before cl line i = sum_list (map cl line)"
  by (simp add: cells_before_def)

lemma cells_before_nonneg:
  "\<forall>s\<in>set line. 0 \<le> cl s \<Longrightarrow> 0 \<le> cells_before cl line i"
  unfolding cells_before_def
  by (rule sum_list_nonneg) (auto dest: in_set_takeD)

lemma cells_before_mono:
  "\<forall>s\<in>set line. 0 \<le> cl s \<Longrightarrow> i \<le> j \<Longrightarrow> cells_before cl line i \<le> cells_before cl line j"
proof (induction line arbitrary: i j)
  case Nil
  then show ?case by (simp add: cells_before_def)
next
  case (Cons s line)
  show ?case
  proof (cases i)
    case 0
    then show ?thesis using cells_before_nonneg [OF Cons.prems(1)] by (simp add: cells_before_0)
  next
    case (Suc i')
    then obtain j' where j: "j = Suc j'" using Cons.prems(2) by (cases j) auto
    have "cells_before cl line i' \<le> cells_before cl line j'"
      using Cons.prems Suc j by (intro Cons.IH) auto
    then show ?thesis by (simp add: Suc j cells_before_Cons_Suc)
  qed
qed

lemma segment_loop_found:
  "\<forall>s\<in>set line. 0 \<le> cl s \<Longrightarrow> len \<le> c \<Longrightarrow> c < len + sum_list (map cl line) \<Longrightarrow>
   \<exists>i<length line. segment_loop cl c len k line = Some (k + i) \<and>
       len + cells_before cl line i \<le> c \<and> c < len + cells_before cl line (Suc i)"
proof (induction line arbitrary: len k)
  case Nil
  then show ?case by simp
next
  case (Cons s line)
  show ?case
  proof (cases "c < len + cl s")
    case True
    then have "segment_loop cl c len k (s # line) = Some (k + 0)"
      using Cons.prems by (simp add: Let_def)
    moreover have "len + cells_before cl (s # line) 0 \<le> c"
      using Cons.prems by (simp add: cells_before_0)
    moreover have "c < len + cells_before cl (s # line) (Suc 0)"
      using True by (simp add: cells_before_Cons_Suc cells_before_0)
    ultimately show ?thesis by blast
  next
    case False
    then have step: "segment_loop cl c len k (s # line) = segment_loop cl c (len + cl s) (Suc k) line"
      by (simp add: Let_def)
    have "\<exists>i<length line. segment_loop cl c (len + cl s) (Suc k) line = Some (Suc k + i) \<and>
       (len + cl s) + cells_before cl line i \<le> c \<and> c < (len + cl s) + cells_before cl line (Suc i)"
      using Cons.prems False by (intro Cons.IH) auto
    then obtain i where i: "i < length line"
        "segment_loop cl c (len + cl s) (Suc k) line = Some (Suc k + i)"
        "(len + cl s) + cells_before cl line i \<le> c" "c < (len + cl s) + cells_before cl line (Suc i)"
      by blast
    have "Suc i < length (s # line)" using i(1) by simp
    moreover have "segment_loop cl c len k (s # line) = Some (k + Suc i)" using step i(2) by simp
    moreover have "len + cells_before cl (s # line) (Suc i) \<le> c"
      using i(3) by (simp add: cells_before_Cons_Suc)
    moreover have "c < len + cells_before cl (s # line) (Suc (Suc i))"
      using i(4) by (simp add: cells_before_Cons_Suc)
    ultimately show ?thesis by blast
  qed
qed

lemma segment_loop_none:
  "\<forall>s\<in>set line. 0 \<le> cl s \<Longrightarrow> c < len \<or> len + sum_list (map cl line) \<le> c \<Longrightarrow>
   segment_loop cl c len k line = None"
proof (induction line arbitrary: len k)
  case Nil
  then show ?case by simp
next
  case (Cons s line)
  have nn: "0 \<le> cl s" using Cons.prems(1) by simp
  have tot: "0 \<le> sum_list (map cl line)" using Cons.prems(1) by (intro sum_list_nonneg) auto
  have miss: "\<not> (len \<le> c \<and> c < len + cl s)" using Cons.prems(2) nn tot by auto
  have "segment_loop cl c (len + cl s) (Suc k) line = None"
    using Cons.prems nn by (intro Cons.IH) auto
  with miss show ?case by (simp add: Let_def)
qed

text \<open>
  Claim C5.  For a row whose runs all have a non-negative cell width and any target cell
  index \<open>c\<close>: whenever run \<open>j\<close> covers cell \<open>c\<close> (its cumulative-width interval
  contains \<open>c\<close>), the translator returns \<open>j\<close>; for \<open>0 \<le> c\<close> below the total
  width such a run exists and is returned; and for \<open>c\<close> at or beyond the total width
  (or negative) the translator returns \<open>None\<close>.
\<close>

theorem segment_index_lookup:
  assumes nn: "\<forall>s\<in>set line. 0 \<le> cell_length s"
  shows "(\<forall>j. j < length line \<and> cells_before cell_length line j \<le> c \<and> c < cells_before cell_length line (Suc j)
            \<longrightarrow> get_segment_index_from_cell_index cell_length c line = Some j)
       \<and> (0 \<le> c \<and> c < sum_list (map cell_length line)
            \<longrightarrow> (\<exists>j<length line. get_segment_index_from_cell_index cell_length c line = Some j
                    \<and> cells_before cell_length line j \<le> c \<and> c < cells_before cell_length line (Suc j)))
       \<and> (sum_list (map cell_length line) \<le> c
            \<longrightarrow> get_segment_index_from_cell_index cell_length c line = None)
       \<and> (c < 0 \<longrightarrow> get_segment_index_from_cell_index cell_length c line = None)"
proof -
  let ?f = "get_segment_index_from_cell_index cell_length c line"
  let ?cb = "cells_before cell_length line"
  let ?total = "sum_list (map cell_length line)"
  have found: "\<exists>j<length line. ?f = Some j \<and> ?cb j \<le> c \<and> c < ?cb (Suc j)"
    if "0 \<le> c" "c < ?total"
    using segment_loop_found [OF nn, of 0 c 0] that
    by (simp add: get_segment_index_from_cell_index_def)
  have none_hi: "?f = None" if "?total \<le> c"
    using segment_loop_none [OF nn, of c 0 0] that
    by (simp add: get_segment_index_from_cell_index_def)
  have none_lo: "?f = None" if "c < 0"
    using segment_loop_none [OF nn, of c 0 0] that
    by (simp add: get_segment_index_from_cell_index_def)
  have uniq: "?f = Some j" if j: "j < length line" "?cb j \<le> c" "c < ?cb (Suc j)" for j
  proof -
    have "0 \<le> ?cb j" by (rule cells_before_nonneg [OF nn])
    then have c0: "0 \<le> c" using j(2) by simp
    have "?cb (Suc j) \<le> ?cb (length line)" using j(1) by (intro cells_before_mono [OF nn]) simp
    then have "c < ?total" using j(3) by (simp add: cells_before_all)
    from found [OF c0 this] obtain i where i: "i < length line" "?f = Some i" "?cb i \<le> c" "c < ?cb (Suc i)"
      by blast
    have "\<not> i < j"
    proof
      assume "i < j"
      then have "?cb (Suc i) \<le> ?cb j" by (intro cells_before_mono [OF nn]) simp
      with i(4) j(2) show False by simp
    qed
    moreover have "\<not> j < i"
    proof
      assume "j < i"
      then have "?cb (Suc j) \<le> ?cb i" by (intro cells_before_mono [OF nn]) simp
      with j(3) i(3) show False by simp
    qed
    ultimately have "i = j" by simp
    with i(2) show ?thesis by simp
  qed
  show ?thesis using found none_hi none_lo uniq by blast
qed

text \<open>
  The widths \<open>[2, 3, 1]\<close>: cell 4 lies in the second run (index 1), which covers the
  cells from 2 up to 5; cell 6 is beyond the row.
\<close>

theorem segment_index_lookup_witness:
  "0 \<le> (2::int) \<and> 0 \<le> (3::int) \<and> 0 \<le> (1::int) \<and>
   get_segment_index_from_cell_index (\<lambda>w. w) 4 [2, 3, 1 :: int] = Some 1 \<and>
   cells_before (\<lambda>w. w) [2, 3, 1 :: int] 1 = 2 \<and>
   cells_before (\<lambda>w. w) [2, 3, 1 :: int] (Suc 1) = 5 \<and>
   get_segment_index_from_cell_index (\<lambda>w. w) 6 [2, 3, 1 :: int] = None"
proof -
  have nn: "\<forall>s\<in>set [2, 3, 1 :: int]. 0 \<le> (\<lambda>w. w) s" by simp
  show ?thesis
    using segment_index_lookup [OF nn, of 4] segment_index_lookup [OF nn, of 6]
    by (simp add: cells_before_def get_segment_index_from_cell_index_def)
qed

section \<open>The cursor clamps\<close>

lemma max_x_nonempty: "buf_lines b \<noteq> [] \<Longrightarrow> \<exists>mx. max_x b = Inr mx"
  by (cases "buf_lines b") (auto simp: max_x_def)

lemma get_line_length_in_range:
  "0 \<le> y \<Longrightarrow> y < max_y b \<Longrightarrow> get_line_length b y = Some (int (length (buf_lines b ! nat y)))"
  by (simp add: get_line_length_def max_y_def py_index_in_range)

lemma get_line_length_beyond: "max_y b \<le> y \<Longrightarrow> get_line_length b y = None"
  by (simp add: get_line_length_def max_y_def py_index_def)

lemma validate_cursor_y_valid: "0 \<le> y \<Longrightarrow> y \<le> max_y (ta_buffer t) - 1 \<Longrightarrow> validate_cursor_y t y = y"
  by (simp add: validate_cursor_y_def is_negative_def Let_def)

lemma validate_cursor_x_valid:
  "get_line_length (ta_buffer t) (cursor_y t) = Some n \<Longrightarrow> x \<le> n \<Longrightarrow> validate_cursor_x t x = x"
  by (simp add: validate_cursor_x_def is_negative_def)

lemma validate_cursor_x_negative: "x < 0 \<Longrightarrow> validate_cursor_x t x = x"
  by (auto simp: validate_cursor_x_def is_negative_def get_line_length_def split: option.splits sum.splits)

lemma validate_cursor_x_beyond:
  "get_line_length (ta_buffer t) (cursor_y t) = Some n \<Longrightarrow> n < x \<Longrightarrow> validate_cursor_x t x = n"
  by (simp add: validate_cursor_x_def is_negative_def)

text \<open>
  Claim C8.  Clamping a valid cursor position changes nothing: a row \<open>y\<close> with
  \<open>0 \<le> y \<le> max_y - 1\<close> is returned unchanged by \<open>validate_cursor_y\<close>, and when
  the current row is valid its line length is present and every column \<open>x\<close> with
  \<open>0 \<le> x \<le> line length\<close> is returned unchanged by \<open>validate_cursor_x\<close>.
\<close>

theorem clamp_valid_noop:
  "(0 \<le> y \<and> y \<le> max_y (ta_buffer t) - 1 \<longrightarrow> validate_cursor_y t y = y) \<and>
   (0 \<le> cursor_y t \<and> cursor_y t \<le> max_y (ta_buffer t) - 1 \<longrightarrow>
      (\<exists>n. get_line_length (ta_buffer t) (cursor_y t) = Some n \<and>
           (\<forall>x. 0 \<le> x \<and> x \<le> n \<longrightarrow> validate_cursor_x t x = x)))"
proof (intro conjI impI)
  assume "0 \<le> y \<and> y \<le> max_y (ta_buffer t) - 1"
  then show "validate_cursor_y t y = y" by (simp add: validate_cursor_y_valid)
next
  assume row: "0 \<le> cursor_y t \<and> cursor_y t \<le> max_y (ta_buffer t) - 1"
  let ?n = "int (length (buf_lines (ta_buffer t) ! nat (cursor_y t)))"
  have len: "get_line_length (ta_buffer t) (cursor_y t) = Some ?n"
    using row by (intro get_line_length_in_range) auto
  have "\<forall>x. 0 \<le> x \<and> x \<le> ?n \<longrightarrow> validate_cursor_x t x = x"
    using validate_cursor_x_valid [OF len] by blast
  with len show "\<exists>n. get_line_length (ta_buffer t) (cursor_y t) = Some n \<and>
           (\<forall>x. 0 \<le> x \<and> x \<le> n \<longrightarrow> validate_cursor_x t x = x)" by blast
qed

text \<open>Row 1 and column 6 (the end of the line) of a buffer with the lines \<open>x\<close> and \<open>abcdef\<close>.\<close>

theorem clamp_valid_noop_witness:
  "0 \<le> (1::int) \<and> 1 \<le> max_y \<lparr>buf_lines = [''x'', ''abcdef'']\<rparr> - 1 \<and>
   validate_cursor_y \<lparr>ta_buffer = \<lparr>buf_lines = [''x'', ''abcdef'']\<rparr>, lines = ([] :: unit list),
       virtual_size = (0, 0), cursor_x = 3, cursor_y = 1\<rparr> 1 = 1 \<and>
   get_line_length \<lparr>buf_lines = [''x'', ''abcdef'']\<rparr> 1 = Some 6 \<and>
   validate_cursor_x \<lparr>ta_buffer = \<lparr>buf_lines = [''x'', ''abcdef'']\<rparr>, lines = ([] :: unit list),
       virtual_size = (0, 0), cursor_x = 3, cursor_y = 1\<rparr> 6 = 6"
  using clamp_valid_noop [of 1 "\<lparr>ta_buffer = \<lparr>buf_lines = [''x'', ''abcdef'']\<rparr>, lines = ([] :: unit list),
       virtual_size = (0, 0), cursor_x = 3, cursor_y = 1\<rparr>"]
  by (simp add: max_y_def get_line_length_def py_index_def validate_cursor_y_def validate_cursor_x_def
      is_negative_def Let_def)

section \<open>The compound linebreak action\<close>

text \<open>
  With the cursor at an in-range position the action never raises: the line under the
  cursor is split at the cursor column, and the cursor ends at column 0 of the next row.
\<close>

lemma linebreak_at_cursor_in_range:
  assumes y: "0 \<le> cursor_y t" "cursor_y t < max_y (ta_buffer t)"
      and x: "0 \<le> cursor_x t" "cursor_x t \<le> int (length (buf_lines (ta_buffer t) ! nat (cursor_y t)))"
  shows "\<exists>t'. action_insert_linebreak_at_cursor render linesep t = Inr t' \<and>
           buf_lines (ta_buffer t') =
             take (nat (cursor_y t)) (buf_lines (ta_buffer t))
             @ take (nat (cursor_x t)) (buf_lines (ta_buffer t) ! nat (cursor_y t))
             # drop (nat (cursor_x t)) (buf_lines (ta_buffer t) ! nat (cursor_y t))
             # drop (Suc (nat (cursor_y t))) (buf_lines (ta_buffer t)) \<and>
           compute_cursor_offset t' = (0, cursor_y t + 1)"
proof -
  let ?ls = "buf_lines (ta_buffer t)"
  let ?l = "?ls ! nat (cursor_y t)"
  let ?ls' = "take (nat (cursor_y t)) ?ls @ take (nat (cursor_x t)) ?l # drop (nat (cursor_x t)) ?l
                # drop (Suc (nat (cursor_y t))) ?ls"
  let ?b = "(ta_buffer t)\<lparr>buf_lines := ?ls'\<rparr>"
  have ylen: "nat (cursor_y t) < length ?ls" using y by (simp add: max_y_def)
  have split: "insert_linebreak (ta_buffer t) (compute_cursor_offset t) = Inr ?b"
    unfolding compute_cursor_offset_def
    using y x by (intro insert_linebreak_in_range) (simp_all add: max_y_def)
  let ?t1 = "t\<lparr>ta_buffer := ?b\<rparr>"
  have my: "max_y ?b = max_y (ta_buffer t) + 1"
    using ylen by (simp add: max_y_def)
  have down: "action_cursor_down ?t1 = ?t1\<lparr>cursor_y := cursor_y t + 1\<rparr>"
    using y my by (simp add: action_cursor_down_def set_cursor_y_def validate_cursor_y_def
        is_negative_def Let_def)
  let ?t2 = "?t1\<lparr>cursor_y := cursor_y t + 1\<rparr>"
  have "get_line_length ?b (cursor_y t + 1) = Some (int (length (buf_lines ?b ! nat (cursor_y t + 1))))"
    using y my by (intro get_line_length_in_range) auto
  then have "validate_cursor_x ?t2 0 = 0"
    by (simp add: validate_cursor_x_def is_negative_def)
  then have setx: "set_cursor_x ?t2 0 = ?t2\<lparr>cursor_x := 0\<rparr>"
    by (simp add: set_cursor_x_def)
  let ?t3 = "?t2\<lparr>cursor_x := 0\<rparr>"
  have "buf_lines ?b \<noteq> []" by simp
  from max_x_nonempty [OF this] obtain mx where mx: "max_x ?b = Inr mx" by blast
  have upd: "update_lines render linesep ?t3 =
      Inr (?t3\<lparr>lines := render (buffer_write linesep ?b) mx (max_y ?b), virtual_size := (mx, max_y ?b)\<rparr>)"
    using mx by (simp add: update_lines_def make_lines_def Let_def)
  have "action_insert_linebreak_at_cursor render linesep t =
      Inr (?t3\<lparr>lines := render (buffer_write linesep ?b) mx (max_y ?b), virtual_size := (mx, max_y ?b)\<rparr>)"
    unfolding action_insert_linebreak_at_cursor_def split
    using down setx upd by (simp add: Let_def)
  then show ?thesis by (simp add: compute_cursor_offset_def)
qed

text \<open>
  Claim C4.  When the line at the cursor's row is \<open>abcdef\<close> and the cursor column is 3,
  the action \<open>action_insert_linebreak_at_cursor\<close> (split in the buffer, cursor down,
  column set to 0, rows regenerated) returns normally; in the new buffer the row of the
  cursor holds \<open>abc\<close>, the next row holds \<open>def\<close>, the other lines are as before, there
  is one line more, and the cursor offset is \<open>(0, original row + 1)\<close>.
\<close>

theorem linebreak_at_cursor_abcdef:
  assumes "0 \<le> cursor_y t" "cursor_y t < max_y (ta_buffer t)"
      and "buf_lines (ta_buffer t) ! nat (cursor_y t) = ''abcdef''" "cursor_x t = 3"
  shows "\<exists>t'. action_insert_linebreak_at_cursor render linesep t = Inr t' \<and>
           buf_lines (ta_buffer t') =
             take (nat (cursor_y t)) (buf_lines (ta_buffer t)) @ ''abc'' # ''def''
             # drop (Suc (nat (cursor_y t))) (buf_lines (ta_buffer t)) \<and>
           buf_lines (ta_buffer t') ! nat (cursor_y t) = ''abc'' \<and>
           buf_lines (ta_buffer t') ! nat (cursor_y t + 1) = ''def'' \<and>
           max_y (ta_buffer t') = max_y (ta_buffer t) + 1 \<and>
           compute_cursor_offset t' = (0, cursor_y t + 1)"
proof -
  have x: "0 \<le> cursor_x t" "cursor_x t \<le> int (length (buf_lines (ta_buffer t) ! nat (cursor_y t)))"
    using assms by simp_all
  from linebreak_at_cursor_in_range [OF assms(1,2) x, of render linesep]
  obtain t' where t': "action_insert_linebreak_at_cursor render linesep t = Inr t'"
    "buf_lines (ta_buffer t') =
       take (nat (cursor_y t)) (buf_lines (ta_buffer t)) @ ''abc'' # ''def''
         # drop (Suc (nat (cursor_y t))) (buf_lines (ta_buffer t))"
    "compute_cursor_offset t' = (0, cursor_y t + 1)"
    using assms(3,4) by auto
  have ylen: "nat (cursor_y t) < length (buf_lines (ta_buffer t))" using assms by (simp add: max_y_def)
  have l: "length (take (nat (cursor_y t)) (buf_lines (ta_buffer t))) = nat (cursor_y t)"
    using ylen by simp
  have n1: "buf_lines (ta_buffer t') ! nat (cursor_y t) = ''abc''"
    unfolding t'(2) using l by (simp add: nth_append)
  have "nat (cursor_y t + 1) = Suc (nat (cursor_y t))" using assms(1) by simp
  then have n2: "buf_lines (ta_buffer t') ! nat (cursor_y t + 1) = ''def''"
    unfolding t'(2) using l by (simp add: nth_append)
  have my: "max_y (ta_buffer t') = max_y (ta_buffer t) + 1"
    unfolding max_y_def t'(2) using ylen by simp
  from t' n1 n2 my show ?thesis by blast
qed

text \<open>The same on the buffer with the lines \<open>x\<close> and \<open>abcdef\<close>, the cursor at \<open>(3, 1)\<close>.\<close>

theorem linebreak_at_cursor_abcdef_witness:
  "0 \<le> (1::int) \<and> 1 < max_y \<lparr>buf_lines = [''x'', ''abcdef'']\<rparr> \<and>
   [''x'', ''abcdef''] ! nat 1 = ''abcdef'' \<and>
   action_insert_linebreak_at_cursor (\<lambda>s w h. []) [CHR 0x0A]
     \<lparr>ta_buffer = \<lparr>buf_lines = [''x'', ''abcdef'']\<rparr>, lines = ([] :: unit list),
       virtual_size = (0, 0), cursor_x = 3, cursor_y = 1\<rparr>
   = Inr \<lparr>ta_buffer = \<lparr>buf_lines = [''x'', ''abc'', ''def'']\<rparr>, lines = [],
       virtual_size = (3, 3), cursor_x = 0, cursor_y = 2\<rparr>"
  using linebreak_at_cursor_abcdef [of "\<lparr>ta_buffer = \<lparr>buf_lines = [''x'', ''abcdef'']\<rparr>, lines = ([] :: unit list),
       virtual_size = (0, 0), cursor_x = 3, cursor_y = 1\<rparr>" "\<lambda>s w h. []" "[CHR 0x0A]"]
  by (simp add: action_insert_linebreak_at_cursor_def compute_cursor_offset_def insert_linebreak_def
      py_index_def py_clamp_def list_insert_def Let_def action_cursor_down_def set_cursor_y_def
      set_cursor_x_def validate_cursor_y_def validate_cursor_x_def is_negative_def max_y_def max_x_def
      get_line_length_def update_lines_def make_lines_def)

section \<open>The number of lines\<close>

text \<open>
  An in-range operation never raises, so a sequence of in-range operations runs to its
  end.  (The text is inserted character by character at the same column; the line ends
  up holding the characters in reverse order, see the section on inserted text.)
\<close>

lemma insert_text_in_range:
  "insert_in_range b (x, y) \<Longrightarrow> str \<noteq> linesep \<Longrightarrow>
   insert_text linesep b (x, y) str =
     Inr (b\<lparr>buf_lines := (buf_lines b)[nat y :=
            take (nat x) (buf_lines b ! nat y) @ rev str @ drop (nat x) (buf_lines b ! nat y)]\<rparr>)"
  by (simp add: insert_text_def insert_in_range_def max_y_def insert_chars_in_range)

lemma op_in_range_succeeds:
  "op_in_range b operation \<Longrightarrow> \<exists>b'. apply_op linesep b operation = Inr b'"
proof (cases operation)
  case (InsertText position str)
  obtain x y where p: "position = (x, y)" by (cases position)
  assume "op_in_range b operation"
  then have r: "0 \<le> y" "y < int (length (buf_lines b))" "0 \<le> x" "x \<le> int (length (buf_lines b ! nat y))"
    using InsertText p by (simp_all add: insert_in_range_def max_y_def)
  show ?thesis
  proof (cases "str = linesep")
    case True
    then show ?thesis using InsertText p insert_linebreak_in_range [OF r] by (simp add: insert_text_def)
  next
    case False
    then show ?thesis using InsertText p insert_chars_in_range [OF r] by (simp add: insert_text_def)
  qed
next
  case (DeleteText position)
  obtain x y where p: "position = (x, y)" by (cases position)
  assume "op_in_range b operation"
  then have r: "0 \<le> y" "y < int (length (buf_lines b))" "0 \<le> x" "x < int (length (buf_lines b ! nat y))"
    using DeleteText p by (simp_all add: delete_in_range_def max_y_def)
  show ?thesis using DeleteText p delete_text_in_range [OF r] by simp
next
  case (InsertLinebreak position)
  obtain x y where p: "position = (x, y)" by (cases position)
  assume "op_in_range b operation"
  then have r: "0 \<le> y" "y < int (length (buf_lines b))" "0 \<le> x" "x \<le> int (length (buf_lines b ! nat y))"
    using InsertLinebreak p by (simp_all add: insert_in_range_def max_y_def)
  show ?thesis using InsertLinebreak p insert_linebreak_in_range [OF r] by simp
qed

lemma ops_in_range_succeed:
  "ops_in_range linesep b ops \<Longrightarrow> \<exists>b'. apply_ops linesep b ops = Inr b'"
proof (induction ops arbitrary: b)
  case Nil
  then show ?case by simp
next
  case (Cons operation rest)
  then have "op_in_range b operation" by simp
  from op_in_range_succeeds [OF this] obtain b1 where b1: "apply_op linesep b operation = Inr b1"
    by blast
  with Cons.prems have "ops_in_range linesep b1 rest" by simp
  from Cons.IH [OF this] b1 show ?case by simp
qed

text \<open>
  Claim C3.  From the buffer of the constructor, every sequence of in-range
  \<open>insert_text\<close>, \<open>delete_text\<close> and \<open>insert_linebreak\<close> calls runs without an
  exception and ends in a buffer with at least one line; more generally every run that
  ends without an exception does.  Deleting the only character of the only line gives
  the buffer with exactly one empty line, whose line count is 1.
\<close>

theorem line_count_at_least_one:
  "(ops_in_range linesep Buffer_init ops \<longrightarrow>
      (\<exists>b. apply_ops linesep Buffer_init ops = Inr b \<and> 1 \<le> max_y b)) \<and>
   (\<forall>b. apply_ops linesep Buffer_init ops = Inr b \<longrightarrow> 1 \<le> max_y b) \<and>
   delete_text \<lparr>buf_lines = [[c]]\<rparr> (0, 0) = Inr \<lparr>buf_lines = [[]]\<rparr> \<and>
   max_y \<lparr>buf_lines = [[]]\<rparr> = 1"
proof -
  have any: "1 \<le> max_y b" if "apply_ops linesep Buffer_init ops = Inr b" for b
    using apply_ops_length [OF that] by (simp add: max_y_def Buffer_init_def)
  have run: "\<exists>b. apply_ops linesep Buffer_init ops = Inr b \<and> 1 \<le> max_y b"
    if "ops_in_range linesep Buffer_init ops"
    using ops_in_range_succeed [OF that] any by blast
  have del: "delete_text \<lparr>buf_lines = [[c]]\<rparr> (0, 0) = Inr \<lparr>buf_lines = [[]]\<rparr>"
    by (simp add: delete_text_def py_index_def Let_def)
  have "max_y \<lparr>buf_lines = [[]]\<rparr> = 1" by (simp add: max_y_def)
  with any run del show ?thesis by blast
qed

text \<open>Typing \<open>a\<close> into the fresh buffer and deleting it again.\<close>

theorem line_count_at_least_one_witness:
  "ops_in_range [CHR 0x0A] Buffer_init [InsertText (0, 0) ''a'', DeleteText (0, 0)] \<and>
   apply_ops [CHR 0x0A] Buffer_init [InsertText (0, 0) ''a'', DeleteText (0, 0)]
     = Inr \<lparr>buf_lines = [[]]\<rparr> \<and>
   1 \<le> max_y \<lparr>buf_lines = [[]]\<rparr>"
  using line_count_at_least_one [of "[CHR 0x0A]" "[InsertText (0, 0) ''a'', DeleteText (0, 0)]"]
  by (simp add: Buffer_init_def insert_in_range_def delete_in_range_def max_y_def insert_text_def
      delete_text_def py_index_def py_clamp_def list_insert_def Let_def)

text \<open>
  Claim C10.  At an in-range position \<open>insert_text\<close> (text other than the line
  separator) and \<open>delete_text\<close> return a buffer with the same number of lines and
  \<open>insert_linebreak\<close> one with exactly one line more; hence over any sequence of
  operations the line count never decreases.
\<close>

theorem line_count_frame:
  "(insert_in_range b p \<and> str \<noteq> linesep \<longrightarrow>
      (\<exists>b'. insert_text linesep b p str = Inr b' \<and> max_y b' = max_y b)) \<and>
   (delete_in_range b q \<longrightarrow> (\<exists>b'. delete_text b q = Inr b' \<and> max_y b' = max_y b)) \<and>
   (insert_in_range b r \<longrightarrow> (\<exists>b'. insert_linebreak b r = Inr b' \<and> max_y b' = max_y b + 1)) \<and>
   (ops_in_range linesep b ops \<longrightarrow> (\<exists>b'. apply_ops linesep b ops = Inr b' \<and> max_y b \<le> max_y b')) \<and>
   (\<forall>b'. apply_ops linesep b ops = Inr b' \<longrightarrow> max_y b \<le> max_y b')"
proof -
  have ins: "\<exists>b'. insert_text linesep b p str = Inr b' \<and> max_y b' = max_y b"
    if "insert_in_range b p" "str \<noteq> linesep"
  proof -
    from op_in_range_succeeds [of b "InsertText p str" linesep] that(1)
    obtain b' where b': "insert_text linesep b p str = Inr b'" by auto
    from insert_text_length [OF b'] that(2) have "max_y b' = max_y b" by (simp add: max_y_def)
    with b' show ?thesis by blast
  qed
  have del: "\<exists>b'. delete_text b q = Inr b' \<and> max_y b' = max_y b" if "delete_in_range b q"
  proof -
    from op_in_range_succeeds [of b "DeleteText q" linesep] that
    obtain b' where b': "delete_text b q = Inr b'" by auto
    from delete_text_length [OF b'] have "max_y b' = max_y b" by (simp add: max_y_def)
    with b' show ?thesis by blast
  qed
  have brk: "\<exists>b'. insert_linebreak b r = Inr b' \<and> max_y b' = max_y b + 1" if "insert_in_range b r"
  proof -
    from op_in_range_succeeds [of b "InsertLinebreak r" linesep] that
    obtain b' where b': "insert_linebreak b r = Inr b'" by auto
    from insert_linebreak_length [OF b'] have "max_y b' = max_y b + 1" by (simp add: max_y_def)
    with b' show ?thesis by blast
  qed
  have any: "max_y b \<le> max_y b'" if "apply_ops linesep b ops = Inr b'" for b'
    using apply_ops_length [OF that] by (simp add: max_y_def)
  have run: "\<exists>b'. apply_ops linesep b ops = Inr b' \<and> max_y b \<le> max_y b'"
    if "ops_in_range linesep b ops"
    using ops_in_range_succeed [OF that] any by blast
  from ins del brk any run show ?thesis by blast
qed

text \<open>On the one-line buffer \<open>ab\<close>, with the newline character as separator.\<close>

theorem line_count_frame_witness:
  "insert_in_range \<lparr>buf_lines = [''ab'']\<rparr> (1, 0) \<and> ''XY'' \<noteq> [CHR 0x0A] \<and>
   insert_text [CHR 0x0A] \<lparr>buf_lines = [''ab'']\<rparr> (1, 0) ''XY'' = Inr \<lparr>buf_lines = [''aYXb'']\<rparr> \<and>
   delete_in_range \<lparr>buf_lines = [''ab'']\<rparr> (1, 0) \<and>
   delete_text \<lparr>buf_lines = [''ab'']\<rparr> (1, 0) = Inr \<lparr>buf_lines = [''a'']\<rparr> \<and>
   insert_linebreak \<lparr>buf_lines = [''ab'']\<rparr> (1, 0) = Inr \<lparr>buf_lines = [''a'', ''b'']\<rparr> \<and>
   max_y \<lparr>buf_lines = [''ab'']\<rparr> = 1 \<and> max_y \<lparr>buf_lines = [''aYXb'']\<rparr> = 1 \<and>
   max_y \<lparr>buf_lines = [''a'']\<rparr> = 1 \<and> max_y \<lparr>buf_lines = [''a'', ''b'']\<rparr> = 2 \<and>
   ops_in_range [CHR 0x0A] \<lparr>buf_lines = [''ab'']\<rparr> [InsertLinebreak (1, 0), DeleteText (0, 1)] \<and>
   apply_ops [CHR 0x0A] \<lparr>buf_lines = [''ab'']\<rparr> [InsertLinebreak (1, 0), DeleteText (0, 1)]
     = Inr \<lparr>buf_lines = [''a'', '''']\<rparr>"
  using line_count_frame [of "\<lparr>buf_lines = [''ab'']\<rparr>" "(1, 0)" "''XY''" "[CHR 0x0A]" "(1, 0)" "(1, 0)"
      "[InsertLinebreak (1, 0), DeleteText (0, 1)]"]
  by (simp add: insert_in_range_def delete_in_range_def max_y_def insert_text_def
      delete_text_def insert_linebreak_def py_index_def py_clamp_def list_insert_def Let_def)

section \<open>Line lengths of rows outside the buffer\<close>

text \<open>
  \<open>get_line_length_in_range\<close> and \<open>get_line_length_beyond\<close> above cover the rows
  from 0 on.  A negative row is read by Python from the end of the list, so only a row
  below \<open>- max_y\<close> is absent.
\<close>

lemma get_line_length_far_negative: "y < - max_y b \<Longrightarrow> get_line_length b y = None"
  by (simp add: get_line_length_def max_y_def py_index_def)

lemma get_line_length_negative:
  "y < 0 \<Longrightarrow> - max_y b \<le> y \<Longrightarrow>
   get_line_length b y = Some (int (length (buf_lines b ! nat (max_y b + y))))"
  by (simp add: get_line_length_def max_y_def py_index_def)

text \<open>
  Claim C6.  The claim asks for \<open>None\<close> at every row outside \<open>[0, max_y)\<close>.  On the
  fresh buffer (one line) row \<open>-1\<close> is outside that range, and \<open>get_line_length\<close>
  returns the length of the last line, \<open>Some 0\<close>; on the buffer with the lines
  \<open>ab\<close> and \<open>cde\<close> it returns \<open>Some 3\<close> for row \<open>-1\<close> and \<open>None\<close> for row 2.
\<close>

theorem get_line_length_minus_one:
  "max_y Buffer_init = 1 \<and> get_line_length Buffer_init (- 1) = Some 0 \<and>
   get_line_length \<lparr>buf_lines = [''ab'', ''cde'']\<rparr> (- 1) = Some 3 \<and>
   get_line_length \<lparr>buf_lines = [''ab'', ''cde'']\<rparr> 2 = None"
  by (simp add: get_line_length_def max_y_def py_index_def Buffer_init_def)

section \<open>Negative columns\<close>

text \<open>
  Claim C1.  The claim asks \<open>validate_cursor_x\<close> to return 0 for a negative column.
  The test of the source is \<open>_is_negative(0)\<close>, which never holds: on the fresh text
  area, whose only line has length 0, \<open>validate_cursor_x\<close> returns \<open>-1\<close> for \<open>-1\<close>,
  and \<open>action_cursor_left\<close> leaves the cursor column at \<open>-1\<close>.  The row clamp
  \<open>validate_cursor_y\<close> tests its argument and returns 0 for \<open>-1\<close>.  (More generally
  \<open>validate_cursor_x_negative\<close>: every negative column is returned unchanged;
  \<open>validate_cursor_x_beyond\<close>: a column beyond the line length is clamped to it.)
\<close>

theorem negative_column_not_clamped:
  "validate_cursor_x TextArea_init (- 1) = - 1 \<and>
   cursor_x (action_cursor_left TextArea_init) = - 1 \<and>
   get_line_length (ta_buffer TextArea_init) (cursor_y TextArea_init) = Some 0 \<and>
   validate_cursor_y TextArea_init (- 1) = 0"
  by (simp add: validate_cursor_x_def validate_cursor_y_def is_negative_def action_cursor_left_def
      set_cursor_x_def TextArea_init_def Buffer_init_def get_line_length_def py_index_def)

section \<open>Inserted text\<close>

text \<open>
  Claim C2.  The claim asks for the text in its own order: \<open>XY\<close> inserted at
  \<open>(2, 0)\<close> into the line \<open>ab\<close> should give \<open>abXY\<close>.  Every character is inserted
  at the same column, so the line becomes \<open>abYX\<close> (in general the reversed text,
  \<open>insert_text_in_range\<close>).  \<open>insert_text_at_cursor\<close> does move the cursor column
  from 2 to 4.
\<close>

theorem insert_text_XY_at_end_of_ab:
  "insert_text [CHR 0x0A] \<lparr>buf_lines = [''ab'']\<rparr> (2, 0) ''XY'' = Inr \<lparr>buf_lines = [''abYX'']\<rparr> \<and>
   insert_text_at_cursor render [CHR 0x0A]
     \<lparr>ta_buffer = \<lparr>buf_lines = [''ab'']\<rparr>, lines = [], virtual_size = (0, 0),
      cursor_x = 2, cursor_y = 0\<rparr> ''XY''
   = Inr \<lparr>ta_buffer = \<lparr>buf_lines = [''abYX'']\<rparr>, lines = render ''abYX'' 4 1,
          virtual_size = (4, 1), cursor_x = 4, cursor_y = 0\<rparr>"
  by (simp add: insert_text_def insert_text_at_cursor_def compute_cursor_offset_def py_index_def
      py_clamp_def list_insert_def Let_def update_lines_def make_lines_def max_x_def max_y_def
      buffer_write_def set_cursor_x_def validate_cursor_x_def is_negative_def get_line_length_def)

text \<open>
  What holds of the round trip at every in-range position and for every text other than
  the line separator: the serialization after the insertion is the serialization before
  it with the \<^emph>\<open>reversed\<close> text spliced in at the character offset of the position, and
  one \<open>delete_text\<close> per inserted character at that position restores the buffer.
\<close>

lemma str_join_Cons: "str_join sep (l # ls) = l @ (if ls = [] then [] else sep @ str_join sep ls)"
  by (cases ls) simp_all

lemma str_join_update:
  "j < length ls \<Longrightarrow> k \<le> length (ls ! j) \<Longrightarrow>
   str_join sep (ls[j := take k (ls ! j) @ t @ drop k (ls ! j)]) =
     take (sum_list (map (\<lambda>l. length l + length sep) (take j ls)) + k) (str_join sep ls) @ t @
     drop (sum_list (map (\<lambda>l. length l + length sep) (take j ls)) + k) (str_join sep ls)"
proof (induction ls arbitrary: j)
  case Nil
  then show ?case by simp
next
  case (Cons l ls)
  show ?case
  proof (cases j)
    case 0
    with Cons.prems show ?thesis by (simp add: str_join_Cons)
  next
    case (Suc j')
    with Cons.prems have j': "j' < length ls" "k \<le> length (ls ! j')" by simp_all
    then have ne: "ls \<noteq> []" by auto
    let ?off = "sum_list (map (\<lambda>l. length l + length sep) (take j' ls)) + k"
    have IH: "str_join sep (ls[j' := take k (ls ! j') @ t @ drop k (ls ! j')]) =
        take ?off (str_join sep ls) @ t @ drop ?off (str_join sep ls)"
      by (rule Cons.IH [OF j'])
    have ne': "ls[j' := take k (ls ! j') @ t @ drop k (ls ! j')] \<noteq> []" using ne by simp
    have off: "sum_list (map (\<lambda>l. length l + length sep) (take j (l # ls))) + k
        = length l + length sep + ?off"
      by (simp add: Suc)
    show ?thesis
      unfolding off
      using ne ne' IH by (simp add: Suc str_join_Cons)
  qed
qed

lemma write_after_insert_text:
  assumes r: "insert_in_range b (x, y)" and ne: "str \<noteq> linesep"
  shows "\<exists>b'. insert_text linesep b (x, y) str = Inr b' \<and>
           buffer_write linesep b' =
             spec_splice (buffer_write linesep b) (spec_char_offset linesep b (x, y)) (rev str)"
proof -
  let ?l = "buf_lines b ! nat y"
  let ?b' = "b\<lparr>buf_lines := (buf_lines b)[nat y := take (nat x) ?l @ rev str @ drop (nat x) ?l]\<rparr>"
  have ins: "insert_text linesep b (x, y) str = Inr ?b'"
    by (rule insert_text_in_range [OF r ne])
  have j: "nat y < length (buf_lines b)" and k: "nat x \<le> length ?l"
    using r by (auto simp: insert_in_range_def max_y_def)
  have "buffer_write linesep ?b' =
      spec_splice (buffer_write linesep b) (spec_char_offset linesep b (x, y)) (rev str)"
    using str_join_update [OF j k, of linesep "rev str"]
    by (simp add: buffer_write_def spec_splice_def spec_char_offset_def)
  with ins show ?thesis by blast
qed

lemma delete_span_middle:
  "0 \<le> y \<Longrightarrow> y < int (length (buf_lines b)) \<Longrightarrow> buf_lines b ! nat y = pre @ mid @ post \<Longrightarrow>
   x = int (length pre) \<Longrightarrow>
   delete_span b (x, y) (length mid) = Inr (b\<lparr>buf_lines := (buf_lines b)[nat y := pre @ post]\<rparr>)"
proof (induction mid arbitrary: b)
  case Nil
  have "(buf_lines b)[nat y := pre @ post] = buf_lines b"
    using Nil.prems(3) by (metis append_Nil list_update_id)
  then show ?case by simp
next
  case (Cons m mid)
  let ?b1 = "b\<lparr>buf_lines := (buf_lines b)[nat y := pre @ mid @ post]\<rparr>"
  have ny: "nat y < length (buf_lines b)" using Cons.prems by simp
  have "delete_text b (x, y) =
     Inr (b\<lparr>buf_lines := (buf_lines b)[nat y :=
            take (nat x) (buf_lines b ! nat y) @ drop (Suc (nat x)) (buf_lines b ! nat y)]\<rparr>)"
    using Cons.prems by (intro delete_text_in_range) auto
  then have step: "delete_text b (x, y) = Inr ?b1"
    using Cons.prems(3,4) by simp
  have "delete_span ?b1 (x, y) (length mid) =
      Inr (?b1\<lparr>buf_lines := (buf_lines ?b1)[nat y := pre @ post]\<rparr>)"
    using Cons.prems ny by (intro Cons.IH) auto
  with step show ?case by simp
qed

lemma insert_then_delete_span:
  assumes r: "insert_in_range b (x, y)" and ne: "str \<noteq> linesep"
  shows "\<exists>b'. insert_text linesep b (x, y) str = Inr b' \<and>
           delete_span b' (x, y) (length str) = Inr b"
proof -
  let ?l = "buf_lines b ! nat y"
  let ?b' = "b\<lparr>buf_lines := (buf_lines b)[nat y := take (nat x) ?l @ rev str @ drop (nat x) ?l]\<rparr>"
  have ins: "insert_text linesep b (x, y) str = Inr ?b'"
    by (rule insert_text_in_range [OF r ne])
  have y: "0 \<le> y" "y < int (length (buf_lines b))" and x: "0 \<le> x" "nat x \<le> length ?l"
    using r by (auto simp: insert_in_range_def max_y_def)
  have "delete_span ?b' (x, y) (length (rev str)) =
      Inr (?b'\<lparr>buf_lines := (buf_lines ?b')[nat y := take (nat x) ?l @ drop (nat x) ?l]\<rparr>)"
    using y x by (intro delete_span_middle) auto
  then have "delete_span ?b' (x, y) (length str) = Inr b" by simp
  with ins show ?thesis by blast
qed

text \<open>
  Claim C7.  The claim asks for the text itself to be spliced into the serialization.
  Inserting \<open>XY\<close> at \<open>(1, 0)\<close> into the one-line buffer \<open>ab\<close> serializes to
  \<open>aYXb\<close>, while the serialization \<open>ab\<close> with \<open>XY\<close> spliced in at offset 1 is
  \<open>aXYb\<close>.  Deleting two characters at \<open>(1, 0)\<close> afterwards does restore \<open>ab\<close>.
\<close>

theorem insert_XY_serialized:
  "insert_in_range \<lparr>buf_lines = [''ab'']\<rparr> (1, 0) \<and>
   insert_text [CHR 0x0A] \<lparr>buf_lines = [''ab'']\<rparr> (1, 0) ''XY'' = Inr \<lparr>buf_lines = [''aYXb'']\<rparr> \<and>
   buffer_write [CHR 0x0A] \<lparr>buf_lines = [''aYXb'']\<rparr> = ''aYXb'' \<and>
   spec_splice (buffer_write [CHR 0x0A] \<lparr>buf_lines = [''ab'']\<rparr>)
     (spec_char_offset [CHR 0x0A] \<lparr>buf_lines = [''ab'']\<rparr> (1, 0)) ''XY'' = ''aXYb'' \<and>
   buffer_write [CHR 0x0A] \<lparr>buf_lines = [''aYXb'']\<rparr> \<noteq>
     spec_splice (buffer_write [CHR 0x0A] \<lparr>buf_lines = [''ab'']\<rparr>)
       (spec_char_offset [CHR 0x0A] \<lparr>buf_lines = [''ab'']\<rparr> (1, 0)) ''XY'' \<and>
   delete_span \<lparr>buf_lines = [''aYXb'']\<rparr> (1, 0) (length ''XY'') = Inr \<lparr>buf_lines = [''ab'']\<rparr>"
  by (simp add: insert_in_range_def max_y_def insert_text_def py_index_def py_clamp_def
      list_insert_def Let_def buffer_write_def spec_splice_def spec_char_offset_def
      delete_text_def numeral_2_eq_2)

text \<open>
  When the line separator is a single character \<open>c\<close>, a text that contains \<open>c\<close> and
  is not just \<open>c\<close> is inserted into one line, and the serialization then splits into
  more pieces than the buffer has lines.
\<close>

lemma count_sep_single: "count_sep [c] s = length (filter (\<lambda>d. d = c) s)"
  by (induction s) auto

lemma count_sep_single_append:
  "count_sep [c] (xs @ ys) = count_sep [c] xs + count_sep [c] ys"
  by (simp add: count_sep_single)

lemma count_sep_single_join:
  "ls \<noteq> [] \<Longrightarrow>
   count_sep [c] (str_join [c] ls) = (length ls - 1) + sum_list (map (count_sep [c]) ls)"
proof (induction ls)
  case Nil
  then show ?case by simp
next
  case (Cons l ls)
  show ?case
  proof (cases "ls = []")
    case True
    then show ?thesis by simp
  next
    case False
    with Cons.IH have "count_sep [c] (str_join [c] ls) = (length ls - 1) + sum_list (map (count_sep [c]) ls)"
      by simp
    moreover have "0 < length ls" using False by simp
    ultimately show ?thesis using False by (simp add: str_join_Cons count_sep_single_append)
  qed
qed

lemma single_char_separator_desync:
  assumes r: "insert_in_range b (x, y)" and c: "c \<in> set str" and ne: "str \<noteq> [c]"
  shows "\<exists>b'. insert_text [c] b (x, y) str = Inr b' \<and> max_y b' = max_y b \<and>
           max_y b' < int (split_count [c] (buffer_write [c] b'))"
proof -
  let ?l = "buf_lines b ! nat y"
  let ?l' = "take (nat x) ?l @ rev str @ drop (nat x) ?l"
  let ?b' = "b\<lparr>buf_lines := (buf_lines b)[nat y := ?l']\<rparr>"
  have ins: "insert_text [c] b (x, y) str = Inr ?b'"
    by (rule insert_text_in_range [OF r ne])
  have j: "nat y < length (buf_lines b)"
    using r by (auto simp: insert_in_range_def max_y_def)
  have "filter (\<lambda>d. d = c) (rev str) \<noteq> []" using c by (simp add: filter_empty_conv)
  then have one: "1 \<le> count_sep [c] ?l'" by (simp add: count_sep_single Suc_le_eq)
  have "?l' \<in> set (buf_lines ?b')" using j by (simp add: set_update_memI)
  then have "count_sep [c] ?l' \<in> set (map (count_sep [c]) (buf_lines ?b'))" by simp
  then have "count_sep [c] ?l' \<le> sum_list (map (count_sep [c]) (buf_lines ?b'))"
    by (intro member_le_sum_list) simp_all
  with one have tot: "1 \<le> sum_list (map (count_sep [c]) (buf_lines ?b'))" by simp
  have ne': "buf_lines ?b' \<noteq> []" using j by auto
  have "split_count [c] (buffer_write [c] ?b') =
      Suc ((length (buf_lines ?b') - 1) + sum_list (map (count_sep [c]) (buf_lines ?b')))"
    using count_sep_single_join [OF ne'] by (simp add: split_count_def buffer_write_def)
  moreover have "0 < length (buf_lines ?b')" using ne' by simp
  ultimately have "length (buf_lines ?b') < split_count [c] (buffer_write [c] ?b')"
    using tot by linarith
  then have "max_y ?b' < int (split_count [c] (buffer_write [c] ?b'))"
    by (simp only: max_y_def of_nat_less_iff)
  moreover have "max_y ?b' = max_y b" by (simp add: max_y_def)
  ultimately show ?thesis using ins by blast
qed

text \<open>
  Claim C9.  The claim asks, for every line separator, that a text containing the
  separator and more leaves a serialization with more separator-split pieces than lines.
  With the two-character separator CR LF, the text CR LF \<open>X\<close> inserted into the fresh
  buffer is stored reversed as \<open>X\<close> LF CR in the single line; the serialization
  no longer contains the separator and splits into one piece, the number of lines.
\<close>

theorem crlf_text_inserted:
  "contains_sep [CHR 0x0D, CHR 0x0A] [CHR 0x0D, CHR 0x0A, CHR ''X''] \<and>
   [CHR 0x0D, CHR 0x0A, CHR ''X''] \<noteq> [CHR 0x0D, CHR 0x0A] \<and>
   insert_in_range Buffer_init (0, 0) \<and>
   insert_text [CHR 0x0D, CHR 0x0A] Buffer_init (0, 0) [CHR 0x0D, CHR 0x0A, CHR ''X'']
     = Inr \<lparr>buf_lines = [[CHR ''X'', CHR 0x0A, CHR 0x0D]]\<rparr> \<and>
   buffer_write [CHR 0x0D, CHR 0x0A] \<lparr>buf_lines = [[CHR ''X'', CHR 0x0A, CHR 0x0D]]\<rparr>
     = [CHR ''X'', CHR 0x0A, CHR 0x0D] \<and>
   split_count [CHR 0x0D, CHR 0x0A] [CHR ''X'', CHR 0x0A, CHR 0x0D] = 1 \<and>
   max_y \<lparr>buf_lines = [[CHR ''X'', CHR 0x0A, CHR 0x0D]]\<rparr> = 1"
  by (simp add: insert_in_range_def Buffer_init_def max_y_def insert_text_def py_index_def
      py_clamp_def list_insert_def Let_def buffer_write_def split_count_def)

end
